theory Spec2Isabelle
  imports Main
begin

section \<open>The toast queue (use-toast hook)\<close>

subsection \<open>Configuration and types\<close>

definition TOAST_LIMIT :: nat where
  "TOAST_LIMIT = 1"

definition TOAST_REMOVE_DELAY :: nat where
  "TOAST_REMOVE_DELAY = 5000"

text \<open>
  The \<^verbatim>\<open>variant\<close> tag of \<^verbatim>\<open>ToastProps\<close>, with the three values the page passes.
\<close>

datatype Variant = Default | Destructive | Warning

text \<open>
  The only \<^verbatim>\<open>onOpenChange\<close> closure the hook ever builds is the one of
  \<^verbatim>\<open>createToast\<close>: called with \<^verbatim>\<open>open = false\<close> it calls the \<^verbatim>\<open>dismiss\<close> bound to
  the toast's id. The closure is represented by the id it captured.
\<close>

datatype OpenChange = DismissOnClose string

text \<open>
  \<^verbatim>\<open>ToasterToast\<close>: \<^verbatim>\<open>id\<close> is a string, every other property is optional
  (\<open>None\<close> is JavaScript's \<^verbatim>\<open>undefined\<close>). Titles, descriptions and actions are
  React nodes that the hook never inspects; they are strings here.
\<close>

record ToasterToast =
  id_t :: string
  title :: "string option"
  description :: "string option"
  action :: "string option"
  "open" :: "bool option"
  variant :: "Variant option"
  onOpenChange :: "OpenChange option"

text \<open>
  \<^verbatim>\<open>ToastPayload = Omit<ToasterToast, "id" | "open">\<close>: what a caller of
  \<^verbatim>\<open>toast(...)\<close> passes.
\<close>

record ToastPayload =
  p_title :: "string option"
  p_description :: "string option"
  p_action :: "string option"
  p_variant :: "Variant option"
  p_onOpenChange :: "OpenChange option"

text \<open>
  \<^verbatim>\<open>Partial<ToasterToast>\<close>: an object in which each key may be missing. An object
  spread copies a key that is there, also when its value is \<^verbatim>\<open>undefined\<close>, so a
  key is either \<open>Omitted\<close> or \<open>Supplied\<close> with its value.
\<close>

datatype 'a entry = Omitted | Supplied 'a

record PartialToast =
  u_id :: "string entry"
  u_title :: "string option entry"
  u_description :: "string option entry"
  u_action :: "string option entry"
  u_open :: "bool option entry"
  u_variant :: "Variant option entry"
  u_onOpenChange :: "OpenChange option entry"

datatype Action =
    ADD_TOAST ToasterToast
  | UPDATE_TOAST PartialToast
  | DISMISS_TOAST "string option"
  | REMOVE_TOAST "string option"

record State =
  toasts :: "ToasterToast list"

subsection \<open>The reducer\<close>

text \<open>One key of the spread \<^verbatim>\<open>{ ...t, ...action.toast }\<close>.\<close>

fun over :: "'a \<Rightarrow> 'a entry \<Rightarrow> 'a" where
  "over old Omitted = old"
| "over old (Supplied v) = v"

definition spread :: "ToasterToast \<Rightarrow> PartialToast \<Rightarrow> ToasterToast" where
  "spread t p =
     \<lparr> id_t = over (id_t t) (u_id p),
       title = over (title t) (u_title p),
       description = over (description t) (u_description p),
       action = over (action t) (u_action p),
       open = over (open t) (u_open p),
       variant = over (variant t) (u_variant p),
       onOpenChange = over (onOpenChange t) (u_onOpenChange p) \<rparr>"

text \<open>
  \<^verbatim>\<open>reducer\<close>, case by case. \<^verbatim>\<open>slice(0, TOAST_LIMIT)\<close> is \<open>take\<close>;
  \<^verbatim>\<open>t.id === action.toast.id\<close> holds when the payload's id is there and equal;
  \<^verbatim>\<open>toastId === undefined\<close> is \<open>toastId = None\<close>.
\<close>

fun reducer :: "State \<Rightarrow> Action \<Rightarrow> State" where
  "reducer state (ADD_TOAST t) =
     state\<lparr>toasts := take TOAST_LIMIT (t # toasts state)\<rparr>"
| "reducer state (UPDATE_TOAST p) =
     state\<lparr>toasts := map (\<lambda>t. if Supplied (id_t t) = u_id p then spread t p else t)
                          (toasts state)\<rparr>"
| "reducer state (DISMISS_TOAST toastId) =
     state\<lparr>toasts := map (\<lambda>t. if Some (id_t t) = toastId \<or> toastId = None
                               then t\<lparr>open := Some False\<rparr> else t)
                          (toasts state)\<rparr>"
| "reducer state (REMOVE_TOAST None) = state\<lparr>toasts := []\<rparr>"
| "reducer state (REMOVE_TOAST (Some toastId)) =
     state\<lparr>toasts := filter (\<lambda>t. id_t t \<noteq> toastId) (toasts state)\<rparr>"

subsection \<open>createToast and the handle it returns\<close>

text \<open>
  \<^verbatim>\<open>idCounterRef.current += 1\<close> on a JavaScript number: exact below \<open>2 ^ 53\<close>, and
  \<open>2 ^ 53 + 1\<close> rounds back to \<open>2 ^ 53\<close>. \<^verbatim>\<open>toString()\<close> of such an integer is its
  decimal numeral.
\<close>

definition increment :: "nat \<Rightarrow> nat" where
  "increment c = (if c < 2 ^ 53 then c + 1 else c)"

definition digit :: "nat \<Rightarrow> char" where
  "digit d = char_of (48 + d)"

function toString :: "nat \<Rightarrow> string" where
  "toString n = (if n < 10 then [digit n] else toString (n div 10) @ [digit (n mod 10)])"
  by pat_completeness auto
termination
  by (relation "measure (\<lambda>n. n)") auto

declare toString.simps [simp del]

definition dismiss_handle :: "string \<Rightarrow> Action" where
  "dismiss_handle i = DISMISS_TOAST (Some i)"

definition update_handle :: "string \<Rightarrow> PartialToast \<Rightarrow> Action" where
  "update_handle i props = UPDATE_TOAST (props\<lparr>u_id := Supplied i\<rparr>)"

text \<open>The toast object literal that \<^verbatim>\<open>createToast\<close> dispatches.\<close>

definition new_toast :: "ToastPayload \<Rightarrow> string \<Rightarrow> ToasterToast" where
  "new_toast payload i =
     \<lparr> id_t = i,
       title = p_title payload,
       description = p_description payload,
       action = p_action payload,
       open = Some True,
       variant = p_variant payload,
       onOpenChange = Some (DismissOnClose i) \<rparr>"

text \<open>
  \<^verbatim>\<open>createToast\<close> returns the id it generated (which fixes the \<^verbatim>\<open>dismiss\<close> and
  \<^verbatim>\<open>update\<close> of the handle), the action it dispatched and the counter it left.
\<close>

definition createToast :: "ToastPayload \<Rightarrow> nat \<Rightarrow> string \<times> Action \<times> nat" where
  "createToast payload idCounter =
     (let c = increment idCounter; i = toString c
      in (i, ADD_TOAST (new_toast payload i), c))"

text \<open>What the \<^verbatim>\<open>onOpenChange\<close> closure dispatches when it is called.\<close>

fun call_onOpenChange :: "OpenChange \<Rightarrow> bool \<Rightarrow> Action option" where
  "call_onOpenChange (DismissOnClose i) opn =
     (if \<not> opn then Some (dismiss_handle i) else None)"

section \<open>The hook: reducer state, timeout map and removal effect\<close>

text \<open>
  A timer of the host, as \<^verbatim>\<open>setTimeout\<close> registered it: the id it returned, the
  toast id its callback captured, and the time at which it comes due.
\<close>

record Timeout =
  handle :: nat
  target :: string
  due :: nat

text \<open>
  What one mounted \<^verbatim>\<open>useToast\<close> owns: the reducer state; \<^verbatim>\<open>toastTimeoutsRef\<close>, a
  \<^verbatim>\<open>Map\<close> from toast id to timeout id, kept in insertion order; and, of the host,
  the timers that were set and have neither fired nor been cleared, the next
  timeout id and the clock (milliseconds).
\<close>

record Hook =
  state :: State
  toastTimeouts :: "(string \<times> nat) list"
  timers :: "Timeout list"
  nextHandle :: nat
  now :: nat

definition mount :: Hook where
  "mount = \<lparr> state = \<lparr>toasts = []\<rparr>, toastTimeouts = [], timers = [],
             nextHandle = 1, now = 0 \<rparr>"

text \<open>\<^verbatim>\<open>timeouts.has(id)\<close>, \<^verbatim>\<open>timeouts.delete(id)\<close>.\<close>

definition has :: "(string \<times> nat) list \<Rightarrow> string \<Rightarrow> bool" where
  "has m k = (k \<in> set (map fst m))"

definition delete :: "string \<Rightarrow> (string \<times> nat) list \<Rightarrow> (string \<times> nat) list" where
  "delete k m = filter (\<lambda>e. fst e \<noteq> k) m"

text \<open>
  The body of the effect: \<^verbatim>\<open>state.toasts.forEach\<close>. A toast with
  \<^verbatim>\<open>open === false\<close> and no entry in the map gets a timer of
  \<^verbatim>\<open>TOAST_REMOVE_DELAY\<close> and an entry holding the timer's id.
\<close>

fun schedule :: "ToasterToast list \<Rightarrow> Hook \<Rightarrow> Hook" where
  "schedule [] h = h"
| "schedule (t # ts) h =
     schedule ts
       (if open t = Some False \<and> \<not> has (toastTimeouts h) (id_t t)
        then h\<lparr> timers := timers h @ [\<lparr> handle = nextHandle h, target = id_t t,
                                         due = now h + TOAST_REMOVE_DELAY \<rparr>],
                toastTimeouts := toastTimeouts h @ [(id_t t, nextHandle h)],
                nextHandle := nextHandle h + 1 \<rparr>
        else h)"

text \<open>
  The effect's cleanup: \<^verbatim>\<open>clearTimeout\<close> on every value of the map. The map keeps
  its entries (the source leaves \<^verbatim>\<open>timeouts.clear()\<close> commented out).
\<close>

definition cleanup :: "Hook \<Rightarrow> Hook" where
  "cleanup h =
     h\<lparr>timers := filter (\<lambda>tm. handle tm \<notin> set (map snd (toastTimeouts h))) (timers h)\<rparr>"

text \<open>
  The render with a new reducer state: \<^verbatim>\<open>state.toasts\<close>, a dependency of the
  effect, has changed, so the cleanup of the effect's previous run is called and
  the effect runs on the new list.
\<close>

definition render :: "State \<Rightarrow> Hook \<Rightarrow> Hook" where
  "render s h = schedule (toasts s) ((cleanup h)\<lparr>state := s\<rparr>)"

text \<open>
  A dispatch on its own: the reducer computes the next state, whose \<^verbatim>\<open>toasts\<close>
  is a new array in each of the four cases, and the component renders with it.
\<close>

definition dispatch :: "Action \<Rightarrow> Hook \<Rightarrow> Hook" where
  "dispatch a h = render (reducer (state h) a) h"

text \<open>
  The dispatches of one event handler are batched: the reducer runs over all of
  them, in order, and the component renders once, with the last state. No
  dispatch, no render.
\<close>

definition commit :: "Action list \<Rightarrow> Hook \<Rightarrow> Hook" where
  "commit as h = (if as = [] then h else render (foldl reducer (state h) as) h)"

text \<open>
  A timer fires: the host forgets it and runs its callback, which dispatches
  \<^verbatim>\<open>REMOVE_TOAST\<close> for the captured id and deletes the id's map entry. The
  dispatch only queues the state update; the render it causes comes after the
  callback has returned, hence after the deletion.
\<close>

definition expire :: "Timeout \<Rightarrow> Hook \<Rightarrow> Hook" where
  "expire tm h =
     dispatch (REMOVE_TOAST (Some (target tm)))
       (h\<lparr> timers := filter (\<lambda>x. handle x \<noteq> handle tm) (timers h),
           toastTimeouts := delete (target tm) (toastTimeouts h) \<rparr>)"

text \<open>
  Time passes: the clock advances by \<open>d\<close> and the timers that have come due fire,
  oldest first, each only if an earlier callback's render has not cleared it.
\<close>

definition elapse :: "nat \<Rightarrow> Hook \<Rightarrow> Hook" where
  "elapse d h =
     (let h1 = h\<lparr>now := now h + d\<rparr>
      in foldl (\<lambda>g tm. if tm \<in> set (timers g) then expire tm g else g) h1
           (filter (\<lambda>tm. due tm \<le> now h1) (timers h1)))"

text \<open>
  \<^verbatim>\<open>showToast\<close> (the \<^verbatim>\<open>toast\<close> of the returned object) and \<^verbatim>\<open>dismissToast\<close>
  (its \<^verbatim>\<open>dismiss\<close>).
\<close>

definition showToast :: "ToastPayload \<Rightarrow> nat \<times> Hook \<Rightarrow> string \<times> nat \<times> Hook" where
  "showToast props ch =
     (case createToast props (fst ch) of
        (i, a, c) \<Rightarrow> (i, c, dispatch a (snd ch)))"

definition dismissToast :: "string option \<Rightarrow> Hook \<Rightarrow> Hook" where
  "dismissToast toastId h = dispatch (DISMISS_TOAST toastId) h"

text \<open>What can happen to a mounted hook, and a run of such events.\<close>

datatype Event = Dispatch Action | Batch "Action list" | Elapse nat

fun occur :: "Hook \<Rightarrow> Event \<Rightarrow> Hook" where
  "occur h (Dispatch a) = dispatch a h"
| "occur h (Batch as) = commit as h"
| "occur h (Elapse d) = elapse d h"

definition run :: "Hook \<Rightarrow> Event list \<Rightarrow> Hook" where
  "run h es = foldl occur h es"

text \<open>The timers pending for a toast id.\<close>

definition pending :: "Hook \<Rightarrow> string \<Rightarrow> Timeout list" where
  "pending h i = filter (\<lambda>tm. target tm = i) (timers h)"

section \<open>Notions used by the properties\<close>

text \<open>
  The timers for toast id \<open>i\<close> that were set after the hook was in state \<open>h\<close>:
  \<^verbatim>\<open>setTimeout\<close> hands out increasing ids, so they are the pending timers of the
  later state \<open>h'\<close> whose id is not below the next id of \<open>h\<close>.
\<close>

definition armed_by :: "Hook \<Rightarrow> Hook \<Rightarrow> string \<Rightarrow> Timeout list" where
  "armed_by h h' i = filter (\<lambda>tm. nextHandle h \<le> handle tm) (pending h' i)"

text \<open>
  What every run of the hook preserves: a pending timer has its entry in the map,
  the map has one entry per key, and timer ids are distinct and below the next id.
\<close>

definition consistent :: "Hook \<Rightarrow> bool" where
  "consistent h =
     ((\<forall>tm \<in> set (timers h). (target tm, handle tm) \<in> set (toastTimeouts h))
      \<and> distinct (map fst (toastTimeouts h))
      \<and> (\<forall>tm \<in> set (timers h). handle tm < nextHandle h)
      \<and> distinct (map handle (timers h)))"

text \<open>The list holds a toast with id \<open>i\<close> whose \<^verbatim>\<open>open\<close> is \<^verbatim>\<open>true\<close>.\<close>

definition shown :: "State \<Rightarrow> string \<Rightarrow> bool" where
  "shown s i = (\<exists>t\<in>set (toasts s). id_t t = i \<and> open t = Some True)"

text \<open>
  The actions that can put \<^verbatim>\<open>open: true\<close> on id \<open>i\<close>: adding an open toast under
  that id, and an update for that id whose payload carries \<^verbatim>\<open>open: true\<close>.
\<close>

fun reopens :: "string \<Rightarrow> Action \<Rightarrow> bool" where
  "reopens i (ADD_TOAST t) = (id_t t = i \<and> open t = Some True)"
| "reopens i (UPDATE_TOAST p) = (u_id p = Supplied i \<and> u_open p = Supplied (Some True))"
| "reopens i (DISMISS_TOAST toastId) = False"
| "reopens i (REMOVE_TOAST toastId) = False"

text \<open>The action, or an action of the event, adds a toast under id \<open>i\<close>.\<close>

fun adding :: "string \<Rightarrow> Action \<Rightarrow> bool" where
  "adding i (ADD_TOAST t) = (id_t t = i)"
| "adding i (UPDATE_TOAST p) = False"
| "adding i (DISMISS_TOAST toastId) = False"
| "adding i (REMOVE_TOAST toastId) = False"

fun adds :: "string \<Rightarrow> Event \<Rightarrow> bool" where
  "adds i (Dispatch a) = adding i a"
| "adds i (Batch as) = (\<exists>a\<in>set as. adding i a)"
| "adds i (Elapse d) = False"

definition listed :: "Hook \<Rightarrow> string \<Rightarrow> bool" where
  "listed h i = (i \<in> set (map id_t (toasts (state h))))"

definition gone :: "Hook \<Rightarrow> string \<Rightarrow> bool" where
  "gone h i = (\<not> listed h i \<and> pending h i = [])"

section \<open>The page: handleSearch and the search history\<close>

record Collocation =
  collocate :: string
  frequency :: int
  exampleSentences :: "string list"

text \<open>
  How \<^verbatim>\<open>await analyzeCollocations(...)\<close> ends: it throws an error object, whose
  \<^verbatim>\<open>message\<close> may be missing, or it gives a result, where \<open>None\<close> stands for a
  result that is \<^verbatim>\<open>null\<close> or has no \<^verbatim>\<open>collocations\<close>
  (\<^verbatim>\<open>!analysisResult?.collocations\<close>). A call that never settles has no outcome,
  and \<^verbatim>\<open>handleSearch\<close> then never finishes.
\<close>

datatype Outcome = Rejected "string option" | Resolved "Collocation list option"

text \<open>
  The state of \<^verbatim>\<open>Home\<close>, and what \<^verbatim>\<open>handleSearch\<close> did to its collaborators:
  the payloads it passed to \<^verbatim>\<open>toast\<close> and the words it sent to
  \<^verbatim>\<open>analyzeCollocations\<close>, both oldest first.
\<close>

record Page =
  word :: string
  collocations :: "Collocation list"
  history :: "string list"
  isLoading :: bool
  notified :: "ToastPayload list"
  requested :: "string list"

text \<open>
  \<^verbatim>\<open>String.prototype.trim\<close> strips white space and line terminators from both
  ends. Of the characters a \<open>char\<close> can hold these are TAB, LF, VT, FF, CR, SP
  and NBSP.
\<close>

definition whitespace :: "char \<Rightarrow> bool" where
  "whitespace c = (of_char c \<in> {9, 10, 11, 12, 13, 32, 160 :: nat})"

definition trim :: "string \<Rightarrow> string" where
  "trim s = rev (dropWhile whitespace (rev (dropWhile whitespace s)))"

text \<open>The object literals passed to \<^verbatim>\<open>toast\<close>: a title, a description, a variant.\<close>

definition toast_of :: "string \<Rightarrow> string \<Rightarrow> Variant option \<Rightarrow> ToastPayload" where
  "toast_of t d v =
     \<lparr> p_title = Some t, p_description = Some d, p_action = None,
       p_variant = v, p_onOpenChange = None \<rparr>"

definition toast :: "ToastPayload \<Rightarrow> Page \<Rightarrow> Page" where
  "toast props pg = pg\<lparr>notified := notified pg @ [props]\<rparr>"

text \<open>A word between double quotes, as the template literals print it.\<close>

definition quoted :: "string \<Rightarrow> string" where
  "quoted w = [CHR 0x22] @ w @ [CHR 0x22]"

text \<open>\<^verbatim>\<open>error.message || fallback\<close>: a missing or empty message is falsy.\<close>

definition message_or :: "string option \<Rightarrow> string \<Rightarrow> string" where
  "message_or m d = (case m of None \<Rightarrow> d | Some s \<Rightarrow> if s = [] then d else s)"

text \<open>The updater passed to \<^verbatim>\<open>setHistory\<close>.\<close>

definition historyUpdater :: "string \<Rightarrow> string list \<Rightarrow> string list" where
  "historyUpdater w prevHistory = take 5 (w # filter (\<lambda>x. x \<noteq> w) prevHistory)"

text \<open>
  \<^verbatim>\<open>handleSearch\<close> of the first version of the page (lines 67 to 131), from the
  click to the end of its \<^verbatim>\<open>finally\<close> block.
\<close>

definition handleSearch :: "(string \<Rightarrow> Outcome) \<Rightarrow> Page \<Rightarrow> Page" where
  "handleSearch analyzeCollocations pg =
     (let trimmedWord = trim (word pg) in
      if trimmedWord = [] then
        toast (toast_of ''Error'' ''Please enter a word to search for.'' (Some Destructive)) pg
      else
        let pg1 = pg\<lparr>isLoading := True, requested := requested pg @ [trimmedWord]\<rparr>;
            none_found =
              (toast (toast_of ''No Collocations Found''
                        (''No collocations found for the word '' @ quoted trimmedWord @ ''.'')
                        (Some Default)) pg1)
              \<lparr>collocations := []\<rparr>;
            pg2 =
              (case analyzeCollocations trimmedWord of
                 Resolved None \<Rightarrow> none_found
               | Resolved (Some cs) \<Rightarrow>
                   if cs = [] then none_found
                   else toast (toast_of ''Success''
                                 (''Collocations found for '' @ quoted trimmedWord @ ''.'') None)
                          (pg1\<lparr>collocations := cs,
                               history := historyUpdater trimmedWord (history pg1)\<rparr>)
               | Rejected message \<Rightarrow>
                   (toast (toast_of ''Error''
                             (message_or message
                                ''Failed to analyze collocations. Please try again.'')
                             (Some Destructive)) pg1)
                   \<lparr>collocations := []\<rparr>)
        in pg2\<lparr>isLoading := False\<rparr>)"

text \<open>
  \<^verbatim>\<open>handleSearch\<close> of the second version of the page (lines 291 to 332): it tests
  the trimmed word but sends and stores the word as typed, and its \<^verbatim>\<open>catch\<close>
  block only calls \<^verbatim>\<open>toast\<close>.
\<close>

definition handleSearch2 :: "(string \<Rightarrow> Outcome) \<Rightarrow> Page \<Rightarrow> Page" where
  "handleSearch2 analyzeCollocations pg =
     (if trim (word pg) = [] then
        toast (toast_of ''Error'' ''Please enter a word to search for.'' (Some Destructive)) pg
      else
        let pg1 = pg\<lparr>isLoading := True, requested := requested pg @ [word pg]\<rparr>;
            none_found =
              (toast (toast_of ''No Collocations Found''
                        (''No collocations found for the word '' @ quoted (word pg) @ ''.'')
                        (Some Warning)) pg1)
              \<lparr>collocations := []\<rparr>;
            pg2 =
              (case analyzeCollocations (word pg) of
                 Resolved None \<Rightarrow> none_found
               | Resolved (Some cs) \<Rightarrow>
                   if cs = [] then none_found
                   else toast (toast_of ''Success''
                                 (''Collocations found for '' @ quoted (word pg) @ ''.'') None)
                          (pg1\<lparr>collocations := cs,
                               history := historyUpdater (word pg) (history pg1)\<rparr>)
               | Rejected message \<Rightarrow>
                   toast (toast_of ''Error''
                            (message_or message ''Failed to analyze collocations.'')
                            (Some Destructive)) pg1)
        in pg2\<lparr>isLoading := False\<rparr>)"

text \<open>The user types \<open>w\<close> into the input and starts the search.\<close>

definition search :: "(string \<Rightarrow> Outcome) \<Rightarrow> Page \<Rightarrow> string \<Rightarrow> Page" where
  "search analyzeCollocations pg w = handleSearch analyzeCollocations (pg\<lparr>word := w\<rparr>)"

section \<open>Concrete scenarios\<close>

text \<open>The toast of the spec's scenario A, as \<^verbatim>\<open>createToast\<close> builds it under id 1.\<close>

definition error_toast :: ToasterToast where
  "error_toast = new_toast (toast_of ''Error'' ''Please enter a word'' None) ''1''"

definition success_toast :: ToasterToast where
  "success_toast = new_toast (toast_of ''Success'' ''Collocations found'' None) ''2''"

text \<open>Update payloads: none of the keys, \<^verbatim>\<open>{ open: true }\<close>, and a new title under a foreign id.\<close>

definition no_keys :: PartialToast where
  "no_keys = \<lparr> u_id = Omitted, u_title = Omitted, u_description = Omitted,
               u_action = Omitted, u_open = Omitted, u_variant = Omitted,
               u_onOpenChange = Omitted \<rparr>"

definition open_true :: PartialToast where
  "open_true = no_keys\<lparr>u_open := Supplied (Some True)\<rparr>"

definition retitle :: PartialToast where
  "retitle = no_keys\<lparr>u_id := Supplied ''2'', u_title := Supplied (Some ''Done'')\<rparr>"

text \<open>
  The hook after toast 1 was added; after it was then dismissed; and after it was
  then reopened by an update through its handle. Each dispatch is an event of its
  own.
\<close>

definition added :: Hook where
  "added = run mount [Dispatch (ADD_TOAST error_toast)]"

definition dismissed :: Hook where
  "dismissed = run mount [Dispatch (ADD_TOAST error_toast), Dispatch (dismiss_handle ''1'')]"

definition reopened :: Hook where
  "reopened = run mount [Dispatch (ADD_TOAST error_toast), Dispatch (dismiss_handle ''1''),
                         Dispatch (update_handle ''1'' open_true)]"

text \<open>The page of scenario B after its lookup, and two services.\<close>

definition coffee :: Collocation where
  "coffee = \<lparr> collocate = ''coffee'', frequency = 12,
              exampleSentences = [''I need strong coffee.''] \<rparr>"

definition fresh_page :: Page where
  "fresh_page = \<lparr> word = [], collocations = [], history = [], isLoading = False,
                  notified = [], requested = [] \<rparr>"

definition strong_page :: Page where
  "strong_page = fresh_page\<lparr>word := ''strong'', collocations := [coffee],
                            history := [''strong'']\<rparr>"

definition finds_coffee :: "string \<Rightarrow> Outcome" where
  "finds_coffee w = Resolved (Some [coffee])"

definition unavailable :: "string \<Rightarrow> Outcome" where
  "unavailable w = Rejected (Some ''Service unavailable'')"

section \<open>Lemmas\<close>

subsection \<open>The timeout map stays consistent with the pending timers\<close>

lemma consistent_mount: "consistent mount" by (simp add: consistent_def mount_def)

lemma schedule_now [simp]: "now (schedule ts h) = now h"
  by (induction ts arbitrary: h) auto

lemma schedule_state [simp]: "state (schedule ts h) = state h"
  by (induction ts arbitrary: h) auto

lemma consistent_schedule: "consistent h \<Longrightarrow> consistent (schedule ts h)"
proof (induction ts arbitrary: h)
  case Nil then show ?case by simp
next
  case (Cons t ts)
  let ?h' = "h\<lparr> timers := timers h @ [\<lparr> handle = nextHandle h, target = id_t t,
                                         due = now h + TOAST_REMOVE_DELAY \<rparr>],
                toastTimeouts := toastTimeouts h @ [(id_t t, nextHandle h)],
                nextHandle := nextHandle h + 1 \<rparr>"
  have "\<not> has (toastTimeouts h) (id_t t) \<Longrightarrow> consistent ?h'"
    using Cons.prems by (fastforce simp: consistent_def has_def)
  then show ?case using Cons by auto
qed

lemma cleanup_timers: "consistent h \<Longrightarrow> timers (cleanup h) = []"
  by (auto simp: consistent_def cleanup_def filter_empty_conv intro: rev_image_eqI)

lemma consistent_cleanup: "consistent h \<Longrightarrow> consistent (cleanup h)"
  by (auto simp: consistent_def cleanup_def distinct_map_filter)

lemma consistent_state [simp]: "consistent (h\<lparr>state := s\<rparr>) = consistent h" by (simp add: consistent_def)
lemma consistent_now [simp]: "consistent (h\<lparr>now := s\<rparr>) = consistent h" by (simp add: consistent_def)

lemma consistent_render: "consistent h \<Longrightarrow> consistent (render s h)"
  by (simp add: render_def consistent_schedule consistent_cleanup)

lemma consistent_dispatch: "consistent h \<Longrightarrow> consistent (dispatch a h)"
  by (simp add: dispatch_def consistent_render)

lemma consistent_commit: "consistent h \<Longrightarrow> consistent (commit as h)"
  by (simp add: commit_def consistent_render)

lemma consistent_expire: assumes "consistent h" "tm \<in> set (timers h)" shows "consistent (expire tm h)"
proof -
  let ?h = "h\<lparr> timers := filter (\<lambda>x. handle x \<noteq> handle tm) (timers h),
           toastTimeouts := delete (target tm) (toastTimeouts h) \<rparr>"
  have "consistent ?h" unfolding consistent_def
  proof (intro conjI ballI)
    fix x assume x: "x \<in> set (timers ?h)"
    then have xin: "x \<in> set (timers h)" and ne: "handle x \<noteq> handle tm" by auto
    have a: "(target x, handle x) \<in> set (toastTimeouts h)" "(target tm, handle tm) \<in> set (toastTimeouts h)"
      using assms xin by (auto simp: consistent_def)
    have "distinct (map fst (toastTimeouts h))" using assms by (simp add: consistent_def)
    then have "target x \<noteq> target tm" using a ne by (metis eq_key_imp_eq_value)
    then show "(target x, handle x) \<in> set (toastTimeouts ?h)" using a by (simp add: delete_def)
    show "handle x < nextHandle ?h" using assms xin by (simp add: consistent_def)
  next
    show "distinct (map fst (toastTimeouts ?h))" using assms by (simp add: consistent_def delete_def distinct_map_filter)
    show "distinct (map handle (timers ?h))" using assms by (simp add: consistent_def distinct_map_filter)
  qed
  then show ?thesis by (simp add: expire_def consistent_dispatch)
qed

lemma consistent_fold: "consistent h \<Longrightarrow> consistent (foldl (\<lambda>g tm. if tm \<in> set (timers g) then expire tm g else g) h tms)"
  by (induction tms arbitrary: h) (auto simp: consistent_expire)

lemma consistent_elapse: "consistent h \<Longrightarrow> consistent (elapse d h)"
  by (simp add: elapse_def Let_def consistent_fold)

lemma consistent_occur: "consistent h \<Longrightarrow> consistent (occur h e)"
  by (cases e) (simp_all add: consistent_dispatch consistent_commit consistent_elapse)

lemma consistent_run: "consistent h \<Longrightarrow> consistent (run h es)"
  unfolding run_def by (induction es arbitrary: h) (simp_all add: consistent_occur)

lemma same_handle_short:
  assumes d: "distinct (map handle xs)"
    and e: "\<forall>x \<in> set xs. \<forall>y \<in> set xs. handle x = handle y"
  shows "length xs \<le> 1"
proof (cases xs)
  case Nil then show ?thesis by simp
next
  case (Cons x ys)
  have "ys = []"
  proof (cases ys)
    case Nil then show ?thesis .
  next
    case c: (Cons y zs)
    have "x \<in> set xs" "y \<in> set xs" using Cons c by simp_all
    then have "handle x = handle y" using e by blast
    moreover have "handle x \<noteq> handle y" using d Cons c by simp
    ultimately show ?thesis by simp
  qed
  with Cons show ?thesis by simp
qed

lemma consistent_pending: assumes "consistent h" shows "length (pending h i) \<le> 1"
proof -
  have d: "distinct (map handle (pending h i))" using assms by (simp add: consistent_def pending_def distinct_map_filter)
  have "\<forall>x \<in> set (pending h i). \<forall>y \<in> set (pending h i). handle x = handle y"
  proof (intro ballI)
    fix x y assume "x \<in> set (pending h i)" "y \<in> set (pending h i)"
    then have "(i, handle x) \<in> set (toastTimeouts h)" "(i, handle y) \<in> set (toastTimeouts h)"
      using assms by (auto simp: consistent_def pending_def)
    moreover have "distinct (map fst (toastTimeouts h))" using assms by (simp add: consistent_def)
    ultimately show "handle x = handle y" by (metis eq_key_imp_eq_value)
  qed
  with d show ?thesis by (rule same_handle_short)
qed

subsection \<open>What the effect schedules\<close>

lemma has_snoc: "has (m @ [(k, v)]) i = (has m i \<or> k = i)"
  by (auto simp: has_def)

lemma pending_snoc:
  "pending (h\<lparr>timers := timers h @ [tm], toastTimeouts := m, nextHandle := n\<rparr>) i
     = pending h i @ (if target tm = i then [tm] else [])"
  by (simp add: pending_def)

lemma schedule_pending_has:
  "has (toastTimeouts h) i \<Longrightarrow> pending (schedule ts h) i = pending h i"
proof (induction ts arbitrary: h)
  case Nil then show ?case by simp
next
  case (Cons t ts)
  let ?h' = "h\<lparr> timers := timers h @ [\<lparr> handle = nextHandle h, target = id_t t,
                                         due = now h + TOAST_REMOVE_DELAY \<rparr>],
                toastTimeouts := toastTimeouts h @ [(id_t t, nextHandle h)],
                nextHandle := nextHandle h + 1 \<rparr>"
  show ?case
  proof (cases "open t = Some False \<and> \<not> has (toastTimeouts h) (id_t t)")
    case True
    then have ne: "id_t t \<noteq> i" using Cons.prems by auto
    have "has (toastTimeouts ?h') i" using Cons.prems by (simp add: has_snoc)
    then have "pending (schedule ts ?h') i = pending ?h' i" by (rule Cons.IH)
    also have "\<dots> = pending h i" using ne by (simp add: pending_snoc)
    finally show ?thesis using True by simp
  next
    case False
    then show ?thesis using Cons.IH[OF Cons.prems] by auto
  qed
qed

lemma schedule_pending_none:
  "\<forall>t\<in>set ts. id_t t = i \<longrightarrow> open t \<noteq> Some False \<Longrightarrow> pending (schedule ts h) i = pending h i"
proof (induction ts arbitrary: h)
  case Nil then show ?case by simp
next
  case (Cons t ts)
  let ?h' = "h\<lparr> timers := timers h @ [\<lparr> handle = nextHandle h, target = id_t t,
                                         due = now h + TOAST_REMOVE_DELAY \<rparr>],
                toastTimeouts := toastTimeouts h @ [(id_t t, nextHandle h)],
                nextHandle := nextHandle h + 1 \<rparr>"
  have rest: "\<forall>t\<in>set ts. id_t t = i \<longrightarrow> open t \<noteq> Some False" using Cons.prems by simp
  show ?case
  proof (cases "open t = Some False \<and> \<not> has (toastTimeouts h) (id_t t)")
    case True
    then have ne: "id_t t \<noteq> i" using Cons.prems by auto
    have "pending (schedule ts ?h') i = pending ?h' i" using rest by (rule Cons.IH)
    also have "\<dots> = pending h i" using ne by (simp add: pending_snoc)
    finally show ?thesis using True by simp
  next
    case False
    then show ?thesis using Cons.IH[OF rest] by auto
  qed
qed

lemma schedule_pending_new:
  assumes "\<not> has (toastTimeouts h) i" "\<exists>t\<in>set ts. id_t t = i \<and> open t = Some False"
  shows "\<exists>n\<ge>nextHandle h. pending (schedule ts h) i
            = pending h i @ [\<lparr> handle = n, target = i, due = now h + TOAST_REMOVE_DELAY \<rparr>]"
  using assms
proof (induction ts arbitrary: h)
  case Nil then show ?case by simp
next
  case (Cons t ts)
  let ?h' = "h\<lparr> timers := timers h @ [\<lparr> handle = nextHandle h, target = id_t t,
                                         due = now h + TOAST_REMOVE_DELAY \<rparr>],
                toastTimeouts := toastTimeouts h @ [(id_t t, nextHandle h)],
                nextHandle := nextHandle h + 1 \<rparr>"
  show ?case
  proof (cases "open t = Some False \<and> \<not> has (toastTimeouts h) (id_t t)")
    case armed: True
    show ?thesis
    proof (cases "id_t t = i")
      case True
      have "has (toastTimeouts ?h') i" using True by (simp add: has_snoc)
      then have "pending (schedule ts ?h') i = pending ?h' i" by (rule schedule_pending_has)
      also have "\<dots> = pending h i @ [\<lparr> handle = nextHandle h, target = i, due = now h + TOAST_REMOVE_DELAY \<rparr>]"
        using True by (simp add: pending_snoc)
      finally have "pending (schedule (t # ts) h) i
          = pending h i @ [\<lparr> handle = nextHandle h, target = i, due = now h + TOAST_REMOVE_DELAY \<rparr>]"
        using armed by simp
      then show ?thesis by blast
    next
      case False
      have a: "\<not> has (toastTimeouts ?h') i" using False Cons.prems(1) by (simp add: has_snoc)
      have b: "\<exists>t\<in>set ts. id_t t = i \<and> open t = Some False" using False Cons.prems(2) by auto
      obtain n where n: "nextHandle ?h' \<le> n"
        "pending (schedule ts ?h') i = pending ?h' i @ [\<lparr> handle = n, target = i, due = now ?h' + TOAST_REMOVE_DELAY \<rparr>]"
        using Cons.IH[OF a b] by blast
      have "pending ?h' i = pending h i" using False by (simp add: pending_snoc)
      then have "pending (schedule (t # ts) h) i
          = pending h i @ [\<lparr> handle = n, target = i, due = now h + TOAST_REMOVE_DELAY \<rparr>]"
        using n(2) armed by simp
      moreover have "nextHandle h \<le> n" using n(1) by simp
      ultimately show ?thesis by blast
    qed
  next
    case False
    then have "id_t t = i \<longrightarrow> open t \<noteq> Some False" using Cons.prems(1) by auto
    then have b: "\<exists>t\<in>set ts. id_t t = i \<and> open t = Some False" using Cons.prems(2) by auto
    show ?thesis using Cons.IH[OF Cons.prems(1) b] False by auto
  qed
qed

lemma pending_cleanup: "consistent h \<Longrightarrow> pending ((cleanup h)\<lparr>state := s\<rparr>) i = []"
  by (simp add: pending_def cleanup_timers)

lemma cleanup_fields [simp]:
  "toastTimeouts (cleanup h) = toastTimeouts h" "nextHandle (cleanup h) = nextHandle h"
  "now (cleanup h) = now h" "state (cleanup h) = state h"
  by (simp_all add: cleanup_def)

lemma render_arms_one:
  assumes "consistent h" "\<not> has (toastTimeouts h) i"
    and "\<exists>t\<in>set (toasts s). id_t t = i \<and> open t = Some False"
  shows "\<exists>n\<ge>nextHandle h. pending (render s h) i
            = [\<lparr> handle = n, target = i, due = now h + TOAST_REMOVE_DELAY \<rparr>]"
proof -
  let ?c = "(cleanup h)\<lparr>state := s\<rparr>"
  have "\<not> has (toastTimeouts ?c) i" using assms(2) by simp
  from schedule_pending_new[OF this assms(3)]
  obtain n where "nextHandle ?c \<le> n"
    "pending (schedule (toasts s) ?c) i
       = pending ?c i @ [\<lparr> handle = n, target = i, due = now ?c + TOAST_REMOVE_DELAY \<rparr>]"
    by blast
  then have "nextHandle h \<le> n"
    "pending (render s h) i = [\<lparr> handle = n, target = i, due = now h + TOAST_REMOVE_DELAY \<rparr>]"
    using pending_cleanup[OF assms(1)] by (simp_all add: render_def)
  then show ?thesis by blast
qed

lemma consistent_recorded: "consistent h \<Longrightarrow> pending h i \<noteq> [] \<Longrightarrow> has (toastTimeouts h) i"
proof -
  assume w: "consistent h" and p: "pending h i \<noteq> []"
  then obtain tm where "tm \<in> set (timers h)" "target tm = i"
    by (auto simp: pending_def filter_empty_conv)
  then have "(i, handle tm) \<in> set (toastTimeouts h)" using w by (auto simp: consistent_def)
  then show ?thesis by (force simp: has_def)
qed

lemma render_arms_none:
  assumes "consistent h" "has (toastTimeouts h) i"
  shows "pending (render s h) i = []"
proof -
  let ?c = "(cleanup h)\<lparr>state := s\<rparr>"
  have "has (toastTimeouts ?c) i" using assms(2) by simp
  then have "pending (schedule (toasts s) ?c) i = pending ?c i"
    by (rule schedule_pending_has)
  then show ?thesis using pending_cleanup[OF assms(1)] by (simp add: render_def)
qed

lemma armed_by_self: "consistent h \<Longrightarrow> armed_by h h i = []"
  by (auto simp: armed_by_def pending_def consistent_def filter_empty_conv)

lemma commit_arms_none:
  assumes "consistent h" "has (toastTimeouts h) i"
  shows "armed_by h (commit as h) i = []"
proof (cases "as = []")
  case True
  then show ?thesis using assms(1) by (simp add: commit_def armed_by_self)
next
  case False
  have "pending (render (foldl reducer (state h) as) h) i = []"
    using assms by (rule render_arms_none)
  then show ?thesis using False by (simp add: commit_def armed_by_def)
qed

subsection \<open>Updates, and toasts that stay closed\<close>

lemma spread_id: "Supplied (id_t t) = u_id p \<Longrightarrow> id_t (spread t p) = id_t t"
  by (cases "u_id p") (auto simp: spread_def)

lemma update_ids: "map id_t (toasts (reducer s (UPDATE_TOAST p))) = map id_t (toasts s)"
  by (simp add: spread_id)

lemma update_others:
  "k < length (toasts s) \<Longrightarrow> Supplied (id_t (toasts s ! k)) \<noteq> u_id p
     \<Longrightarrow> toasts (reducer s (UPDATE_TOAST p)) ! k = toasts s ! k"
  by simp

lemma not_shown_step: "\<not> shown s i \<Longrightarrow> \<not> reopens i a \<Longrightarrow> \<not> shown (reducer s a) i"
proof (cases a)
  case (ADD_TOAST t)
  assume "\<not> shown s i" "\<not> reopens i a"
  then show ?thesis using ADD_TOAST by (auto simp: shown_def TOAST_LIMIT_def)
next
  case (UPDATE_TOAST p)
  assume a: "\<not> shown s i" "\<not> reopens i a"
  show ?thesis unfolding shown_def
  proof
    assume "\<exists>t\<in>set (toasts (reducer s a)). id_t t = i \<and> open t = Some True"
    then obtain t0 where t0: "t0 \<in> set (toasts s)"
      and r: "id_t (if Supplied (id_t t0) = u_id p then spread t0 p else t0) = i"
             "open (if Supplied (id_t t0) = u_id p then spread t0 p else t0) = Some True"
      using UPDATE_TOAST by auto
    show False
    proof (cases "Supplied (id_t t0) = u_id p")
      case True
      then have i: "id_t t0 = i" using r(1) by (simp add: spread_id)
      then have "u_id p = Supplied i" using True by simp
      then have n: "u_open p \<noteq> Supplied (Some True)" using a(2) UPDATE_TOAST by simp
      have "open (spread t0 p) = over (open t0) (u_open p)" by (simp add: spread_def)
      then have "open t0 = Some True" using r(2) True n by (cases "u_open p") auto
      then show False using a(1) t0 i by (auto simp: shown_def)
    next
      case False
      then show False using r a(1) t0 by (auto simp: shown_def)
    qed
  qed
next
  case (DISMISS_TOAST x)
  assume "\<not> shown s i"
  then show ?thesis using DISMISS_TOAST by (auto simp: shown_def)
next
  case (REMOVE_TOAST x)
  assume "\<not> shown s i"
  then show ?thesis using REMOVE_TOAST by (cases x) (auto simp: shown_def)
qed

lemma not_shown_fold:
  "\<not> shown s i \<Longrightarrow> \<forall>a\<in>set as. \<not> reopens i a \<Longrightarrow> \<not> shown (foldl reducer s as) i"
  by (induction as arbitrary: s) (simp_all add: not_shown_step)

subsection \<open>An id that has left the list\<close>

lemma reducer_ids:
  "set (map id_t (toasts (reducer s a)))
     \<subseteq> set (map id_t (toasts s)) \<union> (case a of ADD_TOAST t \<Rightarrow> {id_t t} | _ \<Rightarrow> {})"
proof (cases a)
  case (ADD_TOAST t) then show ?thesis by (auto simp: TOAST_LIMIT_def dest: in_set_takeD)
next
  case (UPDATE_TOAST p)
  have "map id_t (toasts (reducer s (UPDATE_TOAST p))) = map id_t (toasts s)" by (rule update_ids)
  then show ?thesis using UPDATE_TOAST by auto
next
  case (DISMISS_TOAST x) then show ?thesis by auto
next
  case (REMOVE_TOAST x) then show ?thesis by (cases x) auto
qed

lemma pending_cleanup_sub: "pending h i = [] \<Longrightarrow> pending ((cleanup h)\<lparr>state := s\<rparr>) i = []"
  by (auto simp: pending_def cleanup_def filter_empty_conv)

lemma gone_render:
  assumes "gone h i" "i \<notin> set (map id_t (toasts s))"
  shows "gone (render s h) i"
proof -
  have "\<forall>t\<in>set (toasts s). id_t t = i \<longrightarrow> open t \<noteq> Some False" using assms(2) by auto
  then have "pending (schedule (toasts s) ((cleanup h)\<lparr>state := s\<rparr>)) i
               = pending ((cleanup h)\<lparr>state := s\<rparr>) i"
    by (rule schedule_pending_none)
  also have "\<dots> = []" using assms(1) by (simp add: gone_def pending_cleanup_sub)
  finally show ?thesis using assms(2) by (simp add: gone_def listed_def render_def)
qed

lemma absent_step:
  assumes "i \<notin> set (map id_t (toasts s))" "\<not> adding i a"
  shows "i \<notin> set (map id_t (toasts (reducer s a)))"
proof -
  have "i \<notin> (case a of ADD_TOAST t \<Rightarrow> {id_t t} | _ \<Rightarrow> {})"
    using assms(2) by (cases a) auto
  then show ?thesis using reducer_ids[of s a] assms(1) by auto
qed

lemma absent_fold:
  "i \<notin> set (map id_t (toasts s)) \<Longrightarrow> \<forall>a\<in>set as. \<not> adding i a
     \<Longrightarrow> i \<notin> set (map id_t (toasts (foldl reducer s as)))"
proof (induction as arbitrary: s)
  case Nil then show ?case by simp
next
  case (Cons a as)
  have "i \<notin> set (map id_t (toasts (reducer s a)))"
    using absent_step[OF Cons.prems(1), of a] Cons.prems(2) by simp
  then show ?case using Cons.IH[of "reducer s a"] Cons.prems by simp
qed

lemma gone_dispatch:
  assumes "gone h i" "\<not> adding i a"
  shows "gone (dispatch a h) i"
proof -
  have "i \<notin> set (map id_t (toasts (reducer (state h) a)))"
    using assms absent_step[of i "state h" a] by (simp add: gone_def listed_def)
  with assms(1) show ?thesis unfolding dispatch_def by (rule gone_render)
qed

lemma gone_commit:
  assumes "gone h i" "\<forall>a\<in>set as. \<not> adding i a"
  shows "gone (commit as h) i"
proof (cases "as = []")
  case True then show ?thesis using assms(1) by (simp add: commit_def)
next
  case False
  have "i \<notin> set (map id_t (toasts (foldl reducer (state h) as)))"
    using assms absent_fold[of i "state h" as] by (simp add: gone_def listed_def)
  with assms(1) have "gone (render (foldl reducer (state h) as) h) i" by (rule gone_render)
  then show ?thesis using False by (simp add: commit_def)
qed

lemma gone_expire: assumes "gone h i" shows "gone (expire tm h) i"
proof -
  let ?h = "h\<lparr> timers := filter (\<lambda>x. handle x \<noteq> handle tm) (timers h),
           toastTimeouts := delete (target tm) (toastTimeouts h) \<rparr>"
  have "gone ?h i" using assms by (auto simp: gone_def listed_def pending_def filter_empty_conv)
  then show ?thesis unfolding expire_def by (rule gone_dispatch) simp
qed

lemma gone_fold: "gone h i \<Longrightarrow> gone (foldl (\<lambda>g tm. if tm \<in> set (timers g) then expire tm g else g) h tms) i"
  by (induction tms arbitrary: h) (auto simp: gone_expire)

lemma gone_elapse: "gone h i \<Longrightarrow> gone (elapse d h) i"
proof -
  assume "gone h i"
  then have "gone (h\<lparr>now := now h + d\<rparr>) i" by (simp add: gone_def listed_def pending_def)
  then show ?thesis unfolding elapse_def Let_def by (rule gone_fold)
qed

lemma gone_run: "gone h i \<Longrightarrow> \<forall>e\<in>set es. \<not> adds i e \<Longrightarrow> gone (run h es) i"
unfolding run_def
proof (induction es arbitrary: h)
  case Nil then show ?case by simp
next
  case (Cons e es)
  have "gone (occur h e) i"
  proof (cases e)
    case (Dispatch a) then show ?thesis using Cons.prems gone_dispatch[of h i a] by simp
  next
    case (Batch as) then show ?thesis using Cons.prems gone_commit[of h i as] by simp
  next
    case (Elapse d) then show ?thesis using Cons.prems by (simp add: gone_elapse)
  qed
  then show ?case using Cons by simp
qed

lemma add_evicts:
  assumes "toasts (state h) = [t1]" "pending h (id_t t1) = []" "id_t t2 \<noteq> id_t t1"
  shows "toasts (state (dispatch (ADD_TOAST t2) h)) = [t2]" "gone (dispatch (ADD_TOAST t2) h) (id_t t1)"
proof -
  show a: "toasts (state (dispatch (ADD_TOAST t2) h)) = [t2]"
    by (simp add: dispatch_def render_def TOAST_LIMIT_def)
  let ?s = "reducer (state h) (ADD_TOAST t2)"
  have "\<forall>t\<in>set (toasts ?s). id_t t = id_t t1 \<longrightarrow> open t \<noteq> Some False"
    using assms(3) by (simp add: TOAST_LIMIT_def)
  then have "pending (schedule (toasts ?s) ((cleanup h)\<lparr>state := ?s\<rparr>)) (id_t t1) = pending ((cleanup h)\<lparr>state := ?s\<rparr>) (id_t t1)"
    by (rule schedule_pending_none)
  then have "pending (dispatch (ADD_TOAST t2) h) (id_t t1) = []"
    using assms(2) by (simp add: dispatch_def render_def pending_cleanup_sub)
  then show "gone (dispatch (ADD_TOAST t2) h) (id_t t1)"
    using a assms(3) by (simp add: gone_def listed_def)
qed

subsection \<open>Adds, and operations on an absent id\<close>

lemma adds_bounded: "length (toasts (foldl reducer s (map ADD_TOAST ts))) \<le> max (length (toasts s)) TOAST_LIMIT"
proof (induction ts arbitrary: s)
  case Nil then show ?case by simp
next
  case (Cons t ts)
  have "length (toasts (reducer s (ADD_TOAST t))) \<le> TOAST_LIMIT" by simp
  then show ?case using Cons[of "reducer s (ADD_TOAST t)"] by (simp del: reducer.simps) 
qed

lemma map_unmatched: "\<forall>x\<in>set xs. \<not> P x \<Longrightarrow> map (\<lambda>t. if P t then f t else t) xs = xs"
  by (induction xs) simp_all

lemma absent_noop:
  assumes "i \<notin> set (map id_t (toasts s))"
  shows "reducer s (update_handle i props) = s" "reducer s (DISMISS_TOAST (Some i)) = s" "reducer s (REMOVE_TOAST (Some i)) = s"
proof -
  have n: "\<forall>t\<in>set (toasts s). \<not> id_t t = i" using assms by auto
  show "reducer s (update_handle i props) = s"
    using map_unmatched[OF n] by (simp add: update_handle_def)
  show "reducer s (DISMISS_TOAST (Some i)) = s"
    using map_unmatched[OF n] by simp
  have "filter (\<lambda>t. id_t t \<noteq> i) (toasts s) = toasts s" using n by (simp add: filter_id_conv)
  then show "reducer s (REMOVE_TOAST (Some i)) = s" by simp
qed

subsection \<open>The search history\<close>

lemma trim_empty: "(trim s = []) = (\<forall>c \<in> set s. whitespace c)"
proof -
  have "(trim s = []) = (\<forall>c \<in> set (dropWhile whitespace s). whitespace c)"
    by (simp add: trim_def dropWhile_eq_Nil_conv)
  also have "\<dots> = (\<forall>c \<in> set s. whitespace c)"
  proof
    assume a: "\<forall>c \<in> set (dropWhile whitespace s). whitespace c"
    then have "dropWhile whitespace s = []"
      by (metis dropWhile_eq_Nil_conv hd_dropWhile list.set_sel(1))
    then show "\<forall>c \<in> set s. whitespace c" by (simp add: dropWhile_eq_Nil_conv)
  next
    assume "\<forall>c \<in> set s. whitespace c"
    then show "\<forall>c \<in> set (dropWhile whitespace s). whitespace c"
      using set_dropWhileD by fastforce
  qed
  finally show ?thesis .
qed

lemma take_filter_take:
  "distinct xs \<Longrightarrow> take n (filter (\<lambda>x. x \<noteq> w) (take (Suc n) xs)) = take n (filter (\<lambda>x. x \<noteq> w) xs)"
proof (induction xs arbitrary: n)
  case Nil then show ?case by simp
next
  case (Cons x xs)
  show ?case
  proof (cases "x = w")
    case True
    then have "w \<notin> set xs" using Cons.prems by simp
    then have "filter (\<lambda>x. x \<noteq> w) xs = xs" "filter (\<lambda>x. x \<noteq> w) (take n xs) = take n xs"
      by (auto simp: filter_id_conv dest: in_set_takeD)
    then show ?thesis using True by simp
  next
    case False
    show ?thesis
    proof (cases n)
      case 0 then show ?thesis by simp
    next
      case (Suc m)
      then show ?thesis using False Cons.IH[of m] Cons.prems by simp
    qed
  qed
qed

lemma remdups_snoc: "remdups (xs @ [w]) = filter (\<lambda>x. x \<noteq> w) (remdups xs) @ [w]"
  by (induction xs) auto

lemma historyUpdater_recent:
  "historyUpdater w (take 5 (rev (remdups ws))) = take 5 (rev (remdups (ws @ [w])))"
proof -
  have "take 4 (filter (\<lambda>x. x \<noteq> w) (take (Suc 4) (rev (remdups ws)))) = take 4 (filter (\<lambda>x. x \<noteq> w) (rev (remdups ws)))"
    by (rule take_filter_take) simp
  then show ?thesis
    by (simp add: historyUpdater_def remdups_snoc rev_filter eval_nat_numeral)
qed

lemma search_success:
  assumes "trim w \<noteq> []" "cs \<noteq> []" "analyze (trim w) = Resolved (Some cs)"
  shows "history (search analyze pg w) = historyUpdater (trim w) (history pg)"
  using assms by (simp add: search_def handleSearch_def Let_def toast_def)

lemma searches_history:
  assumes "\<forall>w\<in>set ws. trim w \<noteq> [] \<and> (\<exists>cs. cs \<noteq> [] \<and> analyze (trim w) = Resolved (Some cs))"
  shows "history (foldl (search analyze) pg ws) = foldl (\<lambda>h w. historyUpdater w h) (history pg) (map trim ws)"
  using assms
proof (induction ws arbitrary: pg)
  case Nil then show ?case by simp
next
  case (Cons w ws)
  from Cons.prems obtain cs where "trim w \<noteq> []" "cs \<noteq> []" "analyze (trim w) = Resolved (Some cs)" by auto
  then have "history (search analyze pg w) = historyUpdater (trim w) (history pg)"
    by (rule search_success)
  then show ?case using Cons.IH[of "search analyze pg w"] Cons.prems by simp
qed

lemma fold_recent:
  "foldl (\<lambda>h w. historyUpdater w h) (take 5 (rev (remdups vs))) ws = take 5 (rev (remdups (vs @ ws)))"
proof (induction ws arbitrary: vs)
  case Nil then show ?case by simp
next
  case (Cons w ws)
  show ?case using Cons[of "vs @ [w]"] by (simp add: historyUpdater_recent)
qed

lemma front_no_duplicate:
  assumes "w \<in> set h" "length h \<le> 5"
  shows "historyUpdater w h = w # removeAll w h"
proof -
  have "length (filter (\<lambda>x. x \<noteq> w) h) < length h"
    using assms(1) by (simp add: length_filter_less)
  then have "length (w # filter (\<lambda>x. x \<noteq> w) h) \<le> 5" using assms(2) by simp
  moreover have "filter (\<lambda>x. x \<noteq> w) h = removeAll w h"
    by (induction h) auto
  ultimately show ?thesis by (simp add: historyUpdater_def)
qed

subsection \<open>Scenarios and the paths of handleSearch\<close>

lemma state_dispatch: "state (dispatch a h) = reducer (state h) a"
  by (simp add: dispatch_def render_def)

text \<open>The definitions a concrete scenario is evaluated with.\<close>

lemmas scenario_defs =
  run_def dispatch_def commit_def render_def elapse_def expire_def cleanup_def has_def
  delete_def pending_def armed_by_def mount_def added_def dismissed_def reopened_def error_toast_def success_toast_def new_toast_def toast_of_def
  dismiss_handle_def update_handle_def open_true_def no_keys_def retitle_def spread_def
  TOAST_LIMIT_def TOAST_REMOVE_DELAY_def

lemma consistent_reachable: "consistent (run mount es)"
  by (rule consistent_run) (rule consistent_mount)

text \<open>
  The undisturbed path: a hook whose list is one toast with no entry in the map; the
  toast is dismissed and nothing else is dispatched before the delay has passed.
\<close>

lemma removed_after_delay:
  assumes "consistent h" and "toasts (state h) = [t]" and "\<not> has (toastTimeouts h) (id_t t)"
    and "toastId = None \<or> toastId = Some (id_t t)"
  shows "toasts (state (dispatch (DISMISS_TOAST toastId) h)) = [t\<lparr>open := Some False\<rparr>]"
    and "toasts (state (elapse TOAST_REMOVE_DELAY (dispatch (DISMISS_TOAST toastId) h))) = []"
proof -
  have c: "timers (cleanup h) = []" using assms(1) by (rule cleanup_timers)
  have s: "reducer (state h) (DISMISS_TOAST toastId) = (state h)\<lparr>toasts := [t\<lparr>open := Some False\<rparr>]\<rparr>"
    using assms(4) by (auto simp: assms(2))
  show "toasts (state (dispatch (DISMISS_TOAST toastId) h)) = [t\<lparr>open := Some False\<rparr>]"
    unfolding state_dispatch s by simp
  have d: "dispatch (DISMISS_TOAST toastId) h =
      h\<lparr> state := (state h)\<lparr>toasts := [t\<lparr>open := Some False\<rparr>]\<rparr>,
         timers := [\<lparr> handle = nextHandle h, target = id_t t, due = now h + TOAST_REMOVE_DELAY \<rparr>],
         toastTimeouts := toastTimeouts h @ [(id_t t, nextHandle h)],
         nextHandle := nextHandle h + 1 \<rparr>"
    using assms(3) c unfolding dispatch_def render_def s by (simp add: cleanup_def)
  show "toasts (state (elapse TOAST_REMOVE_DELAY (dispatch (DISMISS_TOAST toastId) h))) = []"
    unfolding d by (simp add: elapse_def expire_def state_dispatch TOAST_REMOVE_DELAY_def)
qed

lemma scenario_A:
  "toasts (state (run mount [Dispatch (ADD_TOAST error_toast)])) = [error_toast]
   \<and> toasts (state (run mount [Dispatch (ADD_TOAST error_toast), Dispatch (DISMISS_TOAST None)]))
       = [error_toast\<lparr>open := Some False\<rparr>]
   \<and> toasts (state (run mount [Dispatch (ADD_TOAST error_toast), Dispatch (DISMISS_TOAST None),
                                Elapse TOAST_REMOVE_DELAY])) = []"
  by (simp add: scenario_defs)

text \<open>The definitions a scenario of the page is evaluated with.\<close>

lemmas page_defs =
  search_def handleSearch_def handleSearch2_def toast_def toast_of_def historyUpdater_def
  message_or_def quoted_def trim_def whitespace_def fresh_page_def strong_page_def
  finds_coffee_def unavailable_def coffee_def Let_def

lemma handleSearch_failure:
  assumes "trim (word pg) \<noteq> []" and "analyze (trim (word pg)) = Rejected m"
  shows "notified (handleSearch analyze pg)
           = notified pg @ [toast_of ''Error''
                              (message_or m ''Failed to analyze collocations. Please try again.'')
                              (Some Destructive)]"
    and "history (handleSearch analyze pg) = history pg"
    and "collocations (handleSearch analyze pg) = []"
    and "isLoading (handleSearch analyze pg) = False"
  using assms by (simp_all add: handleSearch_def Let_def toast_def)

lemma handleSearch2_failure:
  assumes "trim (word pg) \<noteq> []" and "analyze (word pg) = Rejected m"
  shows "notified (handleSearch2 analyze pg)
           = notified pg @ [toast_of ''Error'' (message_or m ''Failed to analyze collocations.'')
                              (Some Destructive)]"
    and "history (handleSearch2 analyze pg) = history pg"
    and "collocations (handleSearch2 analyze pg) = collocations pg"
    and "isLoading (handleSearch2 analyze pg) = False"
  using assms by (simp_all add: handleSearch2_def Let_def toast_def)

lemma message_or_cases:
  "message_or (Some ''Service unavailable'') d = ''Service unavailable''"
  "message_or None d = d" "message_or (Some []) d = d"
  by (simp_all add: message_or_def)

lemma loading_cleared:
  "trim (word pg) \<noteq> [] \<Longrightarrow> isLoading (handleSearch analyze pg) = False"
  "trim (word pg) \<noteq> [] \<Longrightarrow> isLoading (handleSearch2 analyze pg) = False"
  by (simp_all add: handleSearch_def handleSearch2_def Let_def)

lemma scenario_B:
  "collocations (handleSearch finds_coffee (fresh_page\<lparr>word := ''strong''\<rparr>)) = [coffee]
   \<and> history (handleSearch finds_coffee (fresh_page\<lparr>word := ''strong''\<rparr>)) = [''strong'']"
  by (simp add: page_defs)

section \<open>The claims about the toast reducer\<close>

text \<open>
  C6. For every state and every id, whether a toast has it or not and whether
  that toast is already dismissed or not, dismissing twice in a row gives the same
  state as dismissing once; the same holds when the id is left out (dismiss all).
  It holds for the reducer's \<^verbatim>\<open>DISMISS_TOAST\<close>, for the \<^verbatim>\<open>dismiss\<close> of a toast's
  handle and for the reducer state behind the hook's \<^verbatim>\<open>dismiss\<close>; and two
  dismissals in one event leave the whole hook, its timers included, as one does.
\<close>

theorem dismiss_idempotent:
  "reducer (reducer s (DISMISS_TOAST toastId)) (DISMISS_TOAST toastId)
     = reducer s (DISMISS_TOAST toastId)
   \<and> reducer (reducer s (dismiss_handle i)) (dismiss_handle i) = reducer s (dismiss_handle i)
   \<and> state (dismissToast toastId (dismissToast toastId h)) = state (dismissToast toastId h)
   \<and> commit [DISMISS_TOAST toastId, DISMISS_TOAST toastId] h = commit [DISMISS_TOAST toastId] h"
proof -
  have "reducer (reducer s (DISMISS_TOAST x)) (DISMISS_TOAST x) = reducer s (DISMISS_TOAST x)"
    for s x by (cases x) simp_all
  then show ?thesis
    by (simp add: dismiss_handle_def dismissToast_def state_dispatch commit_def
             del: reducer.simps)
qed

text \<open>
  C3. Starting from the empty list, after any sequence of adds the list is no
  longer than \<^verbatim>\<open>TOAST_LIMIT\<close>; and right after an add, in whatever state it was
  made, the toast just added is in the list. The same holds for the toast that
  \<^verbatim>\<open>toast(props)\<close> creates under the id it returns.
\<close>

theorem add_respects_limit:
  "length (toasts (foldl reducer \<lparr>toasts = []\<rparr> (map ADD_TOAST ts))) \<le> TOAST_LIMIT
   \<and> t \<in> set (toasts (reducer s (ADD_TOAST t)))
   \<and> (case showToast props (c, h) of (i, c', h') \<Rightarrow> new_toast props i \<in> set (toasts (state h')))"
proof -
  have "length (toasts (foldl reducer \<lparr>toasts = []\<rparr> (map ADD_TOAST ts)))
          \<le> max (length (toasts \<lparr>toasts = []\<rparr>)) TOAST_LIMIT"
    by (rule adds_bounded)
  moreover have "t \<in> set (toasts (reducer s (ADD_TOAST t)))" for t s
    by (simp add: TOAST_LIMIT_def)
  ultimately show ?thesis
    by (simp add: showToast_def createToast_def Let_def state_dispatch del: reducer.simps)
qed

text \<open>
  C10. An \<^verbatim>\<open>UPDATE_TOAST\<close> leaves the ids of the list as they were, position by
  position (so also its length and order), and leaves every toast whose id is not
  the payload's untouched. Through a toast's \<^verbatim>\<open>update\<close> handle the id is the
  handle's own, whatever \<^verbatim>\<open>id\<close> the caller put into the payload: only toasts
  with the handle's id can change, and no id changes.
\<close>

theorem update_frame:
  "map id_t (toasts (reducer s (UPDATE_TOAST p))) = map id_t (toasts s)
   \<and> (\<forall>k<length (toasts s). Supplied (id_t (toasts s ! k)) \<noteq> u_id p
         \<longrightarrow> toasts (reducer s (UPDATE_TOAST p)) ! k = toasts s ! k)
   \<and> map id_t (toasts (reducer s (update_handle i props))) = map id_t (toasts s)
   \<and> (\<forall>k<length (toasts s). id_t (toasts s ! k) \<noteq> i
         \<longrightarrow> toasts (reducer s (update_handle i props)) ! k = toasts s ! k)"
proof (intro conjI allI impI)
  show "map id_t (toasts (reducer s (UPDATE_TOAST p))) = map id_t (toasts s)"
    by (rule update_ids)
  show "map id_t (toasts (reducer s (update_handle i props))) = map id_t (toasts s)"
    unfolding update_handle_def by (rule update_ids)
next
  fix k assume "k < length (toasts s)" "Supplied (id_t (toasts s ! k)) \<noteq> u_id p"
  then show "toasts (reducer s (UPDATE_TOAST p)) ! k = toasts s ! k" by (rule update_others)
next
  fix k assume "k < length (toasts s)" "id_t (toasts s ! k) \<noteq> i"
  then show "toasts (reducer s (update_handle i props)) ! k = toasts s ! k"
    by (simp add: update_handle_def)
qed

text \<open>
  An update through the handle of toast 1 whose payload names id 2: toast 2 stays
  as it was, toast 1 gets the title, the ids stay.
\<close>

theorem update_frame_witness:
  "map id_t (toasts (reducer \<lparr>toasts = [success_toast, error_toast]\<rparr>
                       (update_handle ''1'' retitle))) = [''2'', ''1'']
   \<and> toasts (reducer \<lparr>toasts = [success_toast, error_toast]\<rparr>
                (update_handle ''1'' retitle)) ! 0 = success_toast
   \<and> title (toasts (reducer \<lparr>toasts = [success_toast, error_toast]\<rparr>
                       (update_handle ''1'' retitle)) ! 1) = Some ''Done''
   \<and> u_id retitle = Supplied ''2''"
  using update_frame [of "\<lparr>toasts = [success_toast, error_toast]\<rparr>"
      "retitle\<lparr>u_id := Supplied ''1''\<rparr>" "''1''" retitle]
  by (simp add: scenario_defs)

text \<open>
  C4 as stated fails: after add and dismiss the toast has \<^verbatim>\<open>open: false\<close>, and an
  update through its handle with the payload \<^verbatim>\<open>{ open: true }\<close> sets it back to
  \<^verbatim>\<open>true\<close>.
\<close>

theorem update_reopens_dismissed:
  "map open (toasts (foldl reducer \<lparr>toasts = []\<rparr>
       [ADD_TOAST error_toast, dismiss_handle ''1''])) = [Some False]
   \<and> map open (toasts (foldl reducer \<lparr>toasts = []\<rparr>
       [ADD_TOAST error_toast, dismiss_handle ''1'', update_handle ''1'' open_true]))
     = [Some True]"
  by (simp add: scenario_defs)

text \<open>
  C4, amended. Once no toast with id \<open>i\<close> has \<^verbatim>\<open>open: true\<close> (it was dismissed,
  or it left the list), none has after any sequence of adds, updates, dismissals
  and removals in which no add brings an open toast under \<open>i\<close> again and no update
  for \<open>i\<close> carries \<^verbatim>\<open>open: true\<close>.
\<close>

theorem closed_stays_closed:
  "\<not> shown s i \<Longrightarrow> \<forall>a\<in>set as. \<not> reopens i a \<Longrightarrow> \<not> shown (foldl reducer s as) i"
  by (rule not_shown_fold)

theorem closed_stays_closed_witness:
  "\<not> shown (foldl reducer \<lparr>toasts = []\<rparr> [ADD_TOAST error_toast, dismiss_handle ''1'']) ''1''
   \<and> \<not> reopens ''1'' (update_handle ''1'' retitle)
   \<and> \<not> reopens ''1'' (DISMISS_TOAST None)
   \<and> \<not> shown (foldl reducer
                  (foldl reducer \<lparr>toasts = []\<rparr> [ADD_TOAST error_toast, dismiss_handle ''1''])
                  [update_handle ''1'' retitle, DISMISS_TOAST None]) ''1''
   \<and> map open (toasts (foldl reducer
                  (foldl reducer \<lparr>toasts = []\<rparr> [ADD_TOAST error_toast, dismiss_handle ''1''])
                  [update_handle ''1'' retitle, DISMISS_TOAST None])) = [Some False]"
  using closed_stays_closed
    [of "foldl reducer \<lparr>toasts = []\<rparr> [ADD_TOAST error_toast, dismiss_handle ''1'']" "''1''"
        "[update_handle ''1'' retitle, DISMISS_TOAST None]"]
  by (simp add: scenario_defs shown_def)

section \<open>The claims about the removal timers\<close>

text \<open>
  C1, at an input where the code departs from it. Toast 1 is added and dismissed,
  which sets its removal timer; one second later it is dismissed again. The
  second dispatch renders, the effect's cleanup clears the timer, and the effect
  sets no new one because the map still holds the id. From then on no timer is
  pending: however long one waits (\<open>d\<close> is arbitrary), the dismissed toast stays
  in the list. An update in place of the second dismissal does the same. Left
  alone for the delay, the toast is removed.
\<close>

theorem dismissed_toast_stays:
  "toasts (state (run dismissed [Elapse 1000, Dispatch (dismiss_handle ''1''), Elapse d]))
     = [error_toast\<lparr>open := Some False\<rparr>]
   \<and> timers (run dismissed [Elapse 1000, Dispatch (dismiss_handle ''1''), Elapse d]) = []
   \<and> toasts (state (run dismissed [Elapse 1000, Dispatch (update_handle ''1'' retitle), Elapse d]))
     = [error_toast\<lparr>open := Some False, title := Some ''Done''\<rparr>]
   \<and> toasts (state (run dismissed [Elapse TOAST_REMOVE_DELAY])) = []"
  by (simp add: scenario_defs)

text \<open>
  What does hold of the timers, in every state the hook can reach from its mount
  by any dispatches, alone or batched, and any passing of time: at most one timer
  is pending for an id; a render after which a toast with id \<open>i\<close> has
  \<^verbatim>\<open>open: false\<close>, made when the timeout map has no entry for \<open>i\<close>, sets exactly
  one timer for \<open>i\<close>, and that is the only one pending for it; and while a timer
  is pending for \<open>i\<close>, a dismissal of \<open>i\<close>, with whatever else is dispatched in the
  same event, sets no timer for \<open>i\<close>.
\<close>

lemma one_timer_per_id:
  "length (pending (run mount es) i) \<le> 1
   \<and> (as \<noteq> []
        \<and> (\<exists>t\<in>set (toasts (foldl reducer (state (run mount es)) as)).
               id_t t = i \<and> open t = Some False)
        \<and> \<not> has (toastTimeouts (run mount es)) i
      \<longrightarrow> length (armed_by (run mount es) (commit as (run mount es)) i) = 1
          \<and> pending (commit as (run mount es)) i
              = armed_by (run mount es) (commit as (run mount es)) i)
   \<and> (pending (run mount es) i \<noteq> []
      \<longrightarrow> armed_by (run mount es) (commit (dismiss_handle i # bs) (run mount es)) i = [])"
proof (intro conjI impI)
  let ?h = "run mount es"
  have c: "consistent ?h" by (rule consistent_reachable)
  show "length (pending ?h i) \<le> 1" using c by (rule consistent_pending)
  {
    assume a: "as \<noteq> []
        \<and> (\<exists>t\<in>set (toasts (foldl reducer (state ?h) as)). id_t t = i \<and> open t = Some False)
        \<and> \<not> has (toastTimeouts ?h) i"
    then obtain n where n: "nextHandle ?h \<le> n"
      "pending (render (foldl reducer (state ?h) as) ?h) i
         = [\<lparr> handle = n, target = i, due = now ?h + TOAST_REMOVE_DELAY \<rparr>]"
      using render_arms_one[OF c, of i "foldl reducer (state ?h) as"] by blast
    then show "length (armed_by ?h (commit as ?h) i) = 1"
      using a by (simp add: armed_by_def commit_def)
    show "pending (commit as ?h) i = armed_by ?h (commit as ?h) i"
      using n a by (simp add: armed_by_def commit_def)
  }
  {
    assume "pending ?h i \<noteq> []"
    with c have "has (toastTimeouts ?h) i" by (rule consistent_recorded)
    with c show "armed_by ?h (commit (dismiss_handle i # bs) ?h) i = []"
      by (rule commit_arms_none)
  }
qed

text \<open>
  After the add, toast 1 has no entry in the map and its dismissal sets one timer;
  while that timer is pending, a second dismissal sets none.
\<close>

lemma one_timer_per_id_instance:
  "map open (toasts (foldl reducer (state added) [dismiss_handle ''1''])) = [Some False]
   \<and> \<not> has (toastTimeouts added) ''1''
   \<and> length (armed_by added (commit [dismiss_handle ''1''] added) ''1'') = 1
   \<and> pending dismissed ''1'' \<noteq> []
   \<and> armed_by dismissed (commit [dismiss_handle ''1''] dismissed) ''1'' = []"
  using one_timer_per_id
      [of "[Dispatch (ADD_TOAST error_toast)]" "''1''" "[dismiss_handle ''1'']" "[]"]
    one_timer_per_id
      [of "[Dispatch (ADD_TOAST error_toast), Dispatch (dismiss_handle ''1'')]" "''1''"
          "[dismiss_handle ''1'']" "[]"]
  by (simp add: scenario_defs)

text \<open>
  C2, at an input where the code departs from it. Toast 1 is added and dismissed,
  which sets its one removal timer, and is then reopened by an update through its
  handle: the render clears the timer and leaves the id in the map. On the next
  dismissal the flag goes from \<^verbatim>\<open>true\<close> to \<^verbatim>\<open>false\<close> while no timer is pending
  for the id, and the effect, finding the id in the map, sets none where exactly
  one is due. No timer is pending afterwards, and however long one waits (\<open>d\<close> is
  arbitrary) the dismissed toast stays in the list. The entry that outlives its
  timer is the one behind C1.
\<close>

theorem stale_entry_blocks_timer:
  "map open (toasts (state reopened)) = [Some True]
   \<and> pending reopened ''1'' = []
   \<and> has (toastTimeouts reopened) ''1''
   \<and> map open (toasts (state (dispatch (dismiss_handle ''1'') reopened))) = [Some False]
   \<and> length (armed_by reopened (dispatch (dismiss_handle ''1'') reopened) ''1'') = 0
   \<and> pending (dispatch (dismiss_handle ''1'') reopened) ''1'' = []
   \<and> map open (toasts (state (run reopened [Dispatch (dismiss_handle ''1''), Elapse d])))
       = [Some False]
   \<and> length (armed_by added (dispatch (dismiss_handle ''1'') added) ''1'') = 1"
  by (simp add: scenario_defs)

text \<open>
  C5. The list holds one toast, visible or not, and no timer is pending for its
  id. Adding a toast with another id leaves only the new toast in the list. From
  then on, whatever is dispatched and however much time passes, as long as no add
  brings the first id back: no toast with the first id is in the list, so its
  \<^verbatim>\<open>open\<close> is never set to \<^verbatim>\<open>false\<close>, and no timer is pending for it, so none is set
  and none fires.
\<close>

theorem second_add_discards_first:
  assumes "toasts (state h) = [t1]" and "pending h (id_t t1) = []" and "id_t t2 \<noteq> id_t t1"
    and "\<forall>e\<in>set es. \<not> adds (id_t t1) e"
  shows "toasts (state (dispatch (ADD_TOAST t2) h)) = [t2]
         \<and> \<not> listed (run (dispatch (ADD_TOAST t2) h) es) (id_t t1)
         \<and> pending (run (dispatch (ADD_TOAST t2) h) es) (id_t t1) = []"
proof -
  have "gone (dispatch (ADD_TOAST t2) h) (id_t t1)" using assms(1-3) by (rule add_evicts(2))
  then have "gone (run (dispatch (ADD_TOAST t2) h) es) (id_t t1)" using assms(4) by (rule gone_run)
  moreover have "toasts (state (dispatch (ADD_TOAST t2) h)) = [t2]" using assms(1-3) by (rule add_evicts(1))
  ultimately show ?thesis by (simp add: gone_def)
qed

text \<open>
  Toast 2 is added while toast 1 is on display; afterwards both ids are dismissed
  and the delay passes twice.
\<close>

theorem second_add_discards_first_witness:
  "toasts (state added) = [error_toast]
   \<and> open error_toast = Some True
   \<and> pending added ''1'' = []
   \<and> toasts (state (dispatch (ADD_TOAST success_toast) added)) = [success_toast]
   \<and> \<not> listed (run (dispatch (ADD_TOAST success_toast) added)
                [Dispatch (dismiss_handle ''1''), Elapse 5000,
                 Dispatch (dismiss_handle ''2''), Elapse 5000]) ''1''
   \<and> pending (run (dispatch (ADD_TOAST success_toast) added)
                [Dispatch (dismiss_handle ''1''), Elapse 5000,
                 Dispatch (dismiss_handle ''2''), Elapse 5000]) ''1'' = []"
  using second_add_discards_first
      [of added error_toast success_toast
          "[Dispatch (dismiss_handle ''1''), Elapse 5000,
            Dispatch (dismiss_handle ''2''), Elapse 5000]"]
  by (simp add: scenario_defs listed_def)

section \<open>The claims about the page\<close>

text \<open>
  C7. Starting from an empty history, after any sequence of lookups that each
  have a non-blank word and a non-empty result, the history has at most 5 entries,
  no entry twice (entries are compared as strings, case and all), and is exactly
  the trimmed words in the order of their latest lookup, latest first, cut to 5.
  Looking up a word that is already in the history gives the history with that
  word in front and the others behind it in their order: moved, not duplicated.
\<close>

theorem history_invariant:
  fixes analyze pg ws
  defines "h \<equiv> history (foldl (search analyze) pg ws)"
  assumes "history pg = []"
    and "\<forall>w\<in>set ws. trim w \<noteq> [] \<and> (\<exists>cs. cs \<noteq> [] \<and> analyze (trim w) = Resolved (Some cs))"
  shows "length h \<le> 5 \<and> distinct h \<and> h = take 5 (rev (remdups (map trim ws)))
         \<and> (\<forall>w\<in>set h. historyUpdater w h = w # removeAll w h)"
proof -
  have "h = foldl (\<lambda>h w. historyUpdater w h) (take 5 (rev (remdups []))) (map trim ws)"
    unfolding h_def using assms(2) searches_history[OF assms(3), of pg] by simp
  then have eq: "h = take 5 (rev (remdups (map trim ws)))"
    using fold_recent[of "[]" "map trim ws"] by simp
  then have len: "length h \<le> 5" and "distinct h" by simp_all
  moreover have "\<forall>w\<in>set h. historyUpdater w h = w # removeAll w h"
    using len by (simp add: front_no_duplicate)
  ultimately show ?thesis using eq by simp
qed

theorem history_invariant_witness:
  "history (foldl (search finds_coffee) fresh_page [''strong'', ''quick ''])
     = [''quick'', ''strong'']
   \<and> history (foldl (search finds_coffee) fresh_page [''strong'', ''quick '', ''  strong''])
     = [''strong'', ''quick'']
   \<and> historyUpdater ''strong'' [''quick'', ''strong''] = [''strong'', ''quick'']"
  using history_invariant [where analyze = finds_coffee and pg = fresh_page
      and ws = "[''strong'', ''quick '']"]
    history_invariant [where analyze = finds_coffee and pg = fresh_page
      and ws = "[''strong'', ''quick '', ''  strong'']"]
  by (simp add: page_defs)

text \<open>
  C8, at an input where the code departs from it. The page shows the collocation
  of scenario B and the lookup is rejected with "Service unavailable". The first
  version of \<^verbatim>\<open>handleSearch\<close> clears the displayed collocations; the second
  version, whose \<^verbatim>\<open>catch\<close> block only raises the toast, leaves them on display.
\<close>

theorem second_version_keeps_results:
  "collocations strong_page = [coffee]
   \<and> collocations (handleSearch unavailable strong_page) = []
   \<and> collocations (handleSearch2 unavailable strong_page) = [coffee]"
  by (simp add: page_defs)

text \<open>
  C9. When the word is empty or all white space, \<^verbatim>\<open>handleSearch\<close> (either
  version) sends nothing to the service, raises exactly one toast, the destructive
  "Please enter a word to search for.", and leaves the history, the displayed
  collocations and the loading flag as they were.
\<close>

theorem blank_input_rejected:
  assumes "\<forall>c\<in>set (word pg). whitespace c"
  shows "requested (handleSearch analyze pg) = requested pg
       \<and> notified (handleSearch analyze pg)
           = notified pg @ [toast_of ''Error'' ''Please enter a word to search for.'' (Some Destructive)]
       \<and> history (handleSearch analyze pg) = history pg
       \<and> collocations (handleSearch analyze pg) = collocations pg
       \<and> isLoading (handleSearch analyze pg) = isLoading pg
       \<and> requested (handleSearch2 analyze pg) = requested pg
       \<and> notified (handleSearch2 analyze pg)
           = notified pg @ [toast_of ''Error'' ''Please enter a word to search for.'' (Some Destructive)]
       \<and> history (handleSearch2 analyze pg) = history pg
       \<and> collocations (handleSearch2 analyze pg) = collocations pg
       \<and> isLoading (handleSearch2 analyze pg) = isLoading pg"
proof -
  have "trim (word pg) = []" using assms by (simp add: trim_empty)
  then show ?thesis by (simp add: handleSearch_def handleSearch2_def toast_def)
qed

theorem blank_input_rejected_witness:
  "whitespace CHR '' '' \<and> whitespace (CHR 0x09)
   \<and> requested (handleSearch finds_coffee (strong_page\<lparr>word := [CHR '' '', CHR 0x09]\<rparr>)) = []
   \<and> notified (handleSearch finds_coffee (strong_page\<lparr>word := [CHR '' '', CHR 0x09]\<rparr>))
       = [toast_of ''Error'' ''Please enter a word to search for.'' (Some Destructive)]
   \<and> collocations (handleSearch finds_coffee (strong_page\<lparr>word := [CHR '' '', CHR 0x09]\<rparr>)) = [coffee]
   \<and> history (handleSearch2 finds_coffee (strong_page\<lparr>word := []\<rparr>)) = [''strong'']"
  using blank_input_rejected [of "strong_page\<lparr>word := [CHR '' '', CHR 0x09]\<rparr>" finds_coffee]
    blank_input_rejected [of "strong_page\<lparr>word := []\<rparr>" finds_coffee]
  by (simp add: whitespace_def strong_page_def fresh_page_def)

end
